theory Spec2Isabelle
  imports Complex_Main "HOL-Library.Multiset"
begin

section \<open>Rasterization of segments and circles (3lab/rasterization.py)\<close>

text \<open>
  The two rasterizers of \<^verbatim>\<open>src/3lab/rasterization.py\<close> work on Python integers, which
  are unbounded, so coordinates are \<^typ>\<open>int\<close>. A point is a Python tuple \<^verbatim>\<open>(x, y)\<close>;
  the result of either function is a Python list of such tuples, in the order of the
  \<^verbatim>\<open>append\<close>/\<^verbatim>\<open>extend\<close> calls. Neither function contains a \<^verbatim>\<open>raise\<close>, and on
  integers none of their operations can fail, so both are total functions to lists.
  \<^verbatim>\<open>bresenham_line\<close> starts with \<^verbatim>\<open>int(x0)\<close> etc., which is the identity on the integer
  arguments considered here.
\<close>

type_synonym point = "int \<times> int"

subsection \<open>bresenham\_line\<close>

text \<open>
  The body of \<^verbatim>\<open>for x in range(x0, x1 + 1)\<close>: the list argument holds the values of
  \<^verbatim>\<open>x\<close> still to be visited, and \<^verbatim>\<open>error\<close>, \<^verbatim>\<open>y\<close> and \<^verbatim>\<open>points\<close> are the variables
  the loop mutates.
\<close>

fun line_loop :: "bool \<Rightarrow> int \<Rightarrow> int \<Rightarrow> int \<Rightarrow> int list \<Rightarrow> int \<Rightarrow> int \<Rightarrow> point list \<Rightarrow> point list" where
  "line_loop steep dx delta_error y_step [] error y points = points"
| "line_loop steep dx delta_error y_step (x # xs) error y points =
     (let points = points @ [if steep then (y, x) else (x, y)];
          error = error + delta_error
      in if 2 * error \<ge> dx
         then line_loop steep dx delta_error y_step xs (error - dx) (y + y_step) points
         else line_loop steep dx delta_error y_step xs error y points)"

definition bresenham_line :: "int \<Rightarrow> int \<Rightarrow> int \<Rightarrow> int \<Rightarrow> point list" where
  "bresenham_line x0 y0 x1 y1 =
     (if x0 = x1 then map (\<lambda>y. (x0, y)) [min y0 y1..max y0 y1]
      else
        let dx = \<bar>x1 - x0\<bar>;
            dy = \<bar>y1 - y0\<bar>;
            steep = (dy > dx);
            (x0, y0, x1, y1, dx, dy) =
               (if steep then (y0, x0, y1, x1, dy, dx) else (x0, y0, x1, y1, dx, dy));
            (x0, y0, x1, y1) =
               (if x0 > x1 then (x1, y1, x0, y0) else (x0, y0, x1, y1));
            error = 0;
            delta_error = dy;
            y = y0;
            y_step = (if y1 > y0 then 1 else - 1)
        in line_loop steep dx delta_error y_step [x0..x1] error y [])"

subsection \<open>bresenham\_circle\<close>

text \<open>
  The closure \<^verbatim>\<open>add_circle_points\<close> extends the captured list \<^verbatim>\<open>points\<close> by the eight
  reflections of the offset \<^verbatim>\<open>(x, y)\<close>; here the list is passed in and returned.
\<close>

definition add_circle_points :: "int \<Rightarrow> int \<Rightarrow> int \<Rightarrow> int \<Rightarrow> point list \<Rightarrow> point list" where
  "add_circle_points cx cy x y points =
     points @ [(cx + x, cy + y), (cx - x, cy + y),
               (cx + x, cy - y), (cx - x, cy - y),
               (cx + y, cy + x), (cx - y, cy + x),
               (cx + y, cy - x), (cx - y, cy - x)]"

text \<open>
  The loop \<^verbatim>\<open>while x <= y\<close>, with the mutated variables \<^verbatim>\<open>x\<close>, \<^verbatim>\<open>y\<close>, \<^verbatim>\<open>d\<close> and
  \<^verbatim>\<open>points\<close> as arguments. Each iteration increases \<^verbatim>\<open>x\<close> and never increases
  \<^verbatim>\<open>y\<close>, which is the termination argument.
\<close>

function circle_while :: "int \<Rightarrow> int \<Rightarrow> int \<Rightarrow> int \<Rightarrow> int \<Rightarrow> point list \<Rightarrow> point list" where
  "circle_while cx cy x y d points =
     (if x \<le> y then
        (if d < 0
         then circle_while cx cy (x + 1) y (d + 4 * x + 6)
                (add_circle_points cx cy (x + 1) y points)
         else circle_while cx cy (x + 1) (y - 1) (d + 4 * (x - y) + 10)
                (add_circle_points cx cy (x + 1) (y - 1) points))
      else points)"
  by pat_completeness auto
termination
  by (relation "measure (\<lambda>(cx, cy, x, y, d, points). nat (y - x + 1))") auto

definition bresenham_circle :: "int \<Rightarrow> int \<Rightarrow> int \<Rightarrow> point list" where
  "bresenham_circle center_x center_y radius =
     circle_while center_x center_y 0 radius (3 - 2 * radius)
       (add_circle_points center_x center_y 0 radius [])"

subsection \<open>Auxiliary notions used in the statements and proofs\<close>

text \<open>
  After the axis swap and the endpoint swap of \<^verbatim>\<open>bresenham_line\<close>, the loop always runs
  from a smaller to a larger \<^verbatim>\<open>x0\<close>, with \<^verbatim>\<open>dx = x1 - x0\<close> and
  \<^verbatim>\<open>dy = abs(y1 - y0)\<close>. \<open>canonical_walk\<close> names that loop (source lines 74 to 91) started
  on already normalised endpoints; \<open>bresenham_line_walk\<close> below shows that every
  non-vertical call is one of its four instances.
\<close>

definition canonical_walk :: "bool \<Rightarrow> int \<Rightarrow> int \<Rightarrow> int \<Rightarrow> int \<Rightarrow> point list" where
  "canonical_walk steep x0 y0 x1 y1 =
     line_loop steep (x1 - x0) \<bar>y1 - y0\<bar> (if y1 > y0 then 1 else - 1) [x0..x1] 0 y0 []"

text \<open>Two cells are 8-connected when they differ by at most one in each coordinate.\<close>

definition adjacent8 :: "point \<Rightarrow> point \<Rightarrow> bool" where
  "adjacent8 p q = (\<bar>fst q - fst p\<bar> \<le> 1 \<and> \<bar>snd q - snd p\<bar> \<le> 1)"

text \<open>The squared Euclidean distance of a point from the centre \<open>(cx, cy)\<close>.\<close>

definition dist_sq :: "int \<Rightarrow> int \<Rightarrow> point \<Rightarrow> int" where
  "dist_sq cx cy p = (fst p - cx)\<^sup>2 + (snd p - cy)\<^sup>2"

text \<open>
  \<open>within_one r q\<close> says, over the integers, that the square root of \<open>q\<close> rounds to one of
  \<open>r - 1\<close>, \<open>r\<close>, \<open>r + 1\<close>: the root lies in the interval from \<open>r - 3/2\<close> (inclusive) to
  \<open>r + 3/2\<close> (exclusive). Squaring the upper bound gives \<open>4 q < (2 r + 3)\<^sup>2\<close>; the lower bound is
  empty when \<open>2 r \<le> 3\<close> and is \<open>(2 r - 3)\<^sup>2 \<le> 4 q\<close> otherwise. The root of an integer is never
  of the form \<open>k + 1/2\<close>, so rounding halves up or to even makes no difference.
\<close>

definition within_one :: "int \<Rightarrow> int \<Rightarrow> bool" where
  "within_one r q = (4 * q < (2 * r + 3)\<^sup>2 \<and> (2 * r \<le> 3 \<or> (2 * r - 3)\<^sup>2 \<le> 4 * q))"

section \<open>Properties of bresenham\_line\<close>

subsection \<open>The loop\<close>

text \<open>The accumulator \<^verbatim>\<open>points\<close> is only ever appended to.\<close>

lemma line_loop_append:
  "line_loop s dx de st xs e y pts = pts @ line_loop s dx de st xs e y []"
proof (induction xs arbitrary: e y pts)
  case Nil
  show ?case by simp
next
  case (Cons x xs)
  let ?p = "if s then (y, x) else (x, y)"
  show ?case
    using Cons.IH [of _ _ "pts @ [?p]"] Cons.IH [of _ _ "[?p]"]
    by (simp add: Let_def)
qed

lemma line_loop_Cons:
  "line_loop s dx de st (x # xs) e y [] =
     (if s then (y, x) else (x, y)) #
     (if dx \<le> 2 * (e + de) then line_loop s dx de st xs (e + de - dx) (y + st) []
      else line_loop s dx de st xs (e + de) y [])"
  using line_loop_append [of s dx de st xs _ _ "[if s then (y, x) else (x, y)]"]
  by (simp add: Let_def)

lemma length_line_loop:
  "length (line_loop s dx de st xs e y pts) = length pts + length xs"
  by (induction xs arbitrary: e y pts) (simp_all add: Let_def)


declare line_loop.simps(2) [simp del]

lemma hd_line_loop:
  "a \<le> b \<Longrightarrow> hd (line_loop s dx de st [a..b] e y []) = (if s then (y, a) else (a, y))"
  by (simp add: upto_rec1 [of a b] line_loop_Cons)


lemma line_loop_last:
  assumes "a \<le> b" and "0 < dx" and "0 \<le> dy" and "dy \<le> dx" and "st * st = 1"
    and "e = (a - x0) * dy - st * (y - y0) * dx"
    and "- dx \<le> 2 * e" and "2 * e < dx" and "b - x0 = dx"
  shows "last (line_loop s dx dy st [a..b] e y []) =
           (if s then (y0 + st * dy, b) else (b, y0 + st * dy))"
  using assms
proof (induction a b arbitrary: e y rule: upto.induct)
  case (1 a b)
  show ?case
  proof (cases "a = b")
    case True
    define k where "k = dy - st * (y - y0)"
    have e: "e = dx * k"
      using "1.prems"(6,9) True by (simp add: k_def algebra_simps)
    have "k = 0"
    proof (rule ccontr)
      assume "k \<noteq> 0"
      then consider "1 \<le> k" | "k \<le> - 1" by linarith
      then show False
      proof cases
        case 1
        then have "dx * 1 \<le> dx * k" using \<open>0 < dx\<close> by (intro mult_left_mono) simp_all
        then show False using "1.prems"(8) e \<open>0 < dx\<close> by simp
      next
        case 2
        then have "dx * k \<le> dx * (- 1)" using \<open>0 < dx\<close> by (intro mult_left_mono) simp_all
        then show False using "1.prems"(7) e \<open>0 < dx\<close> by simp
      qed
    qed
    then have "st * (y - y0) = dy" by (simp add: k_def)
    then have "st * (st * (y - y0)) = st * dy" by simp
    then have "y - y0 = st * dy"
      using \<open>st * st = 1\<close> by (simp add: mult.assoc [symmetric])
    then have "y = y0 + st * dy" by simp
    then show ?thesis using True by (simp add: line_loop_Cons)
  next
    case False
    then have lt: "a + 1 \<le> b" using "1.prems"(1) by simp
    have ne: "\<And>e' y'. line_loop s dx dy st [a + 1..b] e' y' [] \<noteq> []"
    proof
      fix e' y' assume "line_loop s dx dy st [a + 1..b] e' y' [] = []"
      then have "length (line_loop s dx dy st [a + 1..b] e' y' []) = 0" by simp
      then show False using lt by (simp add: length_line_loop)
    qed
    show ?thesis
    proof (cases "dx \<le> 2 * (e + dy)")
      case True
      have "last (line_loop s dx dy st [a + 1..b] (e + dy - dx) (y + st) []) =
              (if s then (y0 + st * dy, b) else (b, y0 + st * dy))"
      proof (rule "1.IH")
        show "e + dy - dx = (a + 1 - x0) * dy - st * (y + st - y0) * dx"
          using "1.prems"(6) \<open>st * st = 1\<close> by (simp add: algebra_simps)
      qed (use "1.prems" lt True in auto)
      then show ?thesis
        using "1.prems"(1) True ne by (simp add: upto_rec1 [of a b] line_loop_Cons)
    next
      case False
      have "last (line_loop s dx dy st [a + 1..b] (e + dy) y []) =
              (if s then (y0 + st * dy, b) else (b, y0 + st * dy))"
      proof (rule "1.IH")
        show "e + dy = (a + 1 - x0) * dy - st * (y - y0) * dx"
          using "1.prems"(6) by (simp add: algebra_simps)
      qed (use "1.prems" lt False in auto)
      then show ?thesis
        using "1.prems"(1) False ne by (simp add: upto_rec1 [of a b] line_loop_Cons)
    qed
  qed
qed


lemma line_loop_successively:
  "\<bar>st\<bar> \<le> 1 \<Longrightarrow> successively adjacent8 (line_loop s dx de st [a..b] e y [])"
proof (induction a b arbitrary: e y rule: upto.induct)
  case (1 a b)
  show ?case
  proof (cases "a \<le> b")
    case False
    then show ?thesis by simp
  next
    case True
    note ab = True
    show ?thesis
    proof (cases "a + 1 \<le> b")
      case False
      then have "[a + 1..b] = []" by simp
      then show ?thesis using ab by (simp add: upto_rec1 [of a b] line_loop_Cons)
    next
      case True
      have IH: "\<And>e' y'. successively adjacent8 (line_loop s dx de st [a + 1..b] e' y' [])"
        using "1.IH" [OF ab "1.prems"] .
      have hd: "\<And>e' y'. hd (line_loop s dx de st [a + 1..b] e' y' []) =
                  (if s then (y', a + 1) else (a + 1, y'))"
        using True by (rule hd_line_loop)
      show ?thesis
        using ab IH hd "1.prems"
        by (simp add: upto_rec1 [of a b] line_loop_Cons successively_Cons adjacent8_def)
    qed
  qed
qed

lemma successively_nth:
  "successively P xs \<Longrightarrow> Suc i < length xs \<Longrightarrow> P (xs ! i) (xs ! Suc i)"
proof (induction P xs arbitrary: i rule: successively.induct)
  case (3 P x y xs)
  then show ?case by (cases i) simp_all
qed simp_all

lemma vertical_successively:
  "successively adjacent8 (map (\<lambda>y. (c, y)) [a..b])"
proof (induction a b rule: upto.induct)
  case (1 a b)
  show ?case
  proof (cases "a \<le> b")
    case False
    then show ?thesis by simp
  next
    case True
    show ?thesis
    proof (cases "a + 1 \<le> b")
      case False
      then have "[a + 1..b] = []" by simp
      then show ?thesis using True by (simp add: upto_rec1 [of a b])
    next
      case le: True
      then have "hd [a + 1..b] = a + 1" by (simp add: upto_rec1 [of "a + 1" b])
      then show ?thesis
        using True le "1.IH" [OF True]
        by (simp add: upto_rec1 [of a b] successively_Cons adjacent8_def hd_map)
    qed
  qed
qed

lemma bresenham_line_walk:
  "x0 \<noteq> x1 \<Longrightarrow>
   bresenham_line x0 y0 x1 y1 =
     (if \<bar>y1 - y0\<bar> > \<bar>x1 - x0\<bar>
      then (if y0 > y1 then canonical_walk True y1 x1 y0 x0 else canonical_walk True y0 x0 y1 x1)
      else (if x0 > x1 then canonical_walk False x1 y1 x0 y0 else canonical_walk False x0 y0 x1 y1))"
  by (simp add: bresenham_line_def canonical_walk_def Let_def abs_minus_commute)

lemma canonical_walk_length:
  "length (canonical_walk s a ya b yb) = nat (b - a + 1)"
  by (simp add: canonical_walk_def length_line_loop)

lemma canonical_walk_hd:
  "a \<le> b \<Longrightarrow> hd (canonical_walk s a ya b yb) = (if s then (ya, a) else (a, ya))"
  by (simp add: canonical_walk_def hd_line_loop)

lemma canonical_walk_last:
  assumes "a < b" and "\<bar>yb - ya\<bar> \<le> b - a"
  shows "last (canonical_walk s a ya b yb) = (if s then (yb, b) else (b, yb))"
proof -
  let ?st = "if yb > ya then 1 else - 1 :: int"
  have "last (line_loop s (b - a) \<bar>yb - ya\<bar> ?st [a..b] 0 ya []) =
          (if s then (ya + ?st * \<bar>yb - ya\<bar>, b) else (b, ya + ?st * \<bar>yb - ya\<bar>))"
    by (rule line_loop_last [where ?x0.0 = a]) (use assms in auto)
  moreover have "ya + ?st * \<bar>yb - ya\<bar> = yb" by simp
  ultimately show ?thesis by (simp add: canonical_walk_def)
qed

lemma canonical_walk_successively:
  "successively adjacent8 (canonical_walk s a ya b yb)"
  unfolding canonical_walk_def by (rule line_loop_successively) simp


lemma canonical_walk_endpoints:
  assumes "a < b" and "\<bar>yb - ya\<bar> \<le> b - a"
  shows "(if s then (ya, a) else (a, ya)) \<in> set (canonical_walk s a ya b yb)"
    and "(if s then (yb, b) else (b, yb)) \<in> set (canonical_walk s a ya b yb)"
proof -
  have ne: "canonical_walk s a ya b yb \<noteq> []"
  proof
    assume "canonical_walk s a ya b yb = []"
    then have "length (canonical_walk s a ya b yb) = 0" by simp
    then show False using assms(1) by (simp add: canonical_walk_length)
  qed
  have "hd (canonical_walk s a ya b yb) \<in> set (canonical_walk s a ya b yb)"
    using ne by (rule hd_in_set)
  then show "(if s then (ya, a) else (a, ya)) \<in> set (canonical_walk s a ya b yb)"
    using assms(1) by (simp add: canonical_walk_hd)
  have "last (canonical_walk s a ya b yb) \<in> set (canonical_walk s a ya b yb)"
    using ne by (rule last_in_set)
  then show "(if s then (yb, b) else (b, yb)) \<in> set (canonical_walk s a ya b yb)"
    using assms by (simp add: canonical_walk_last)
qed

lemma bresenham_line_walk_sym:
  "x0 \<noteq> x1 \<Longrightarrow> bresenham_line x0 y0 x1 y1 = bresenham_line x1 y1 x0 y0"
  using bresenham_line_walk [of x0 x1 y0 y1] bresenham_line_walk [of x1 x0 y1 y0]
  by (auto simp add: abs_minus_commute)

subsection \<open>Results\<close>

text \<open>
  C7. For all integers \<open>a\<close>, \<open>b\<close>, the segment with both endpoints at \<open>(a, b)\<close> is rasterized
  to the one-element list \<open>[(a, b)]\<close> (by the vertical-line path).
\<close>

theorem bresenham_line_equal_endpoints: "bresenham_line a b a b = [(a, b)]"
  by (simp add: bresenham_line_def)

text \<open>
  C3. For all integers \<open>x0\<close>, \<open>y0\<close>, \<open>x1\<close>, \<open>y1\<close>, both endpoint cells \<open>(x0, y0)\<close> and
  \<open>(x1, y1)\<close> occur in the list returned by \<^verbatim>\<open>bresenham_line\<close>.
\<close>

theorem bresenham_line_contains_endpoints:
  "(x0, y0) \<in> set (bresenham_line x0 y0 x1 y1) \<and>
   (x1, y1) \<in> set (bresenham_line x0 y0 x1 y1)"
proof (cases "x0 = x1")
  case True
  then show ?thesis by (auto simp add: bresenham_line_def)
next
  case False
  show ?thesis
  proof (cases "\<bar>y1 - y0\<bar> > \<bar>x1 - x0\<bar>")
    case steep: True
    show ?thesis
    proof (cases "y0 > y1")
      case True
      then have "\<bar>x0 - x1\<bar> \<le> y0 - y1" using steep by simp
      with True show ?thesis
        using canonical_walk_endpoints [of y1 y0 x0 x1 True] False steep
        by (simp add: bresenham_line_walk)
    next
      case False
      then have lt: "y0 < y1" using steep by simp
      then have "\<bar>x1 - x0\<bar> \<le> y1 - y0" using steep by simp
      with lt show ?thesis
        using canonical_walk_endpoints [of y0 y1 x1 x0 True] \<open>x0 \<noteq> x1\<close> steep
        by (simp add: bresenham_line_walk)
    qed
  next
    case flat: False
    show ?thesis
    proof (cases "x0 > x1")
      case True
      then have "\<bar>y0 - y1\<bar> \<le> x0 - x1" using flat by simp
      with True show ?thesis
        using canonical_walk_endpoints [of x1 x0 y0 y1 False] False flat
        by (simp add: bresenham_line_walk)
    next
      case False
      then have lt: "x0 < x1" using \<open>x0 \<noteq> x1\<close> by simp
      then have "\<bar>y1 - y0\<bar> \<le> x1 - x0" using flat by simp
      with lt show ?thesis
        using canonical_walk_endpoints [of x0 x1 y1 y0 False] \<open>x0 \<noteq> x1\<close> flat
        by (simp add: bresenham_line_walk)
    qed
  qed
qed

text \<open>
  C5. For all integers \<open>x0\<close>, \<open>y0\<close>, \<open>x1\<close>, \<open>y1\<close>, any two consecutive points of the list
  returned by \<^verbatim>\<open>bresenham_line\<close> differ by at most 1 in the x coordinate and by at most 1
  in the y coordinate.
\<close>

theorem bresenham_line_eight_connected:
  assumes "Suc i < length (bresenham_line x0 y0 x1 y1)"
  shows "\<bar>fst (bresenham_line x0 y0 x1 y1 ! Suc i) - fst (bresenham_line x0 y0 x1 y1 ! i)\<bar> \<le> 1 \<and>
         \<bar>snd (bresenham_line x0 y0 x1 y1 ! Suc i) - snd (bresenham_line x0 y0 x1 y1 ! i)\<bar> \<le> 1"
proof -
  have "successively adjacent8 (bresenham_line x0 y0 x1 y1)"
  proof (cases "x0 = x1")
    case True
    then show ?thesis by (simp add: bresenham_line_def vertical_successively)
  next
    case False
    then show ?thesis by (simp add: bresenham_line_walk canonical_walk_successively)
  qed
  then have "adjacent8 (bresenham_line x0 y0 x1 y1 ! i) (bresenham_line x0 y0 x1 y1 ! Suc i)"
    using assms by (rule successively_nth)
  then show ?thesis by (simp add: adjacent8_def)
qed

theorem bresenham_line_eight_connected_witness:
  "Suc 1 < length (bresenham_line 0 0 3 2) \<and>
   \<bar>fst (bresenham_line 0 0 3 2 ! Suc 1) - fst (bresenham_line 0 0 3 2 ! 1)\<bar> \<le> 1 \<and>
   \<bar>snd (bresenham_line 0 0 3 2 ! Suc 1) - snd (bresenham_line 0 0 3 2 ! 1)\<bar> \<le> 1"
proof -
  have h: "Suc 1 < length (bresenham_line 0 0 3 2)"
    by code_simp
  show ?thesis using h bresenham_line_eight_connected [OF h] by blast
qed

text \<open>
  C6. For all integers \<open>x0\<close>, \<open>y0\<close>, \<open>x1\<close>, \<open>y1\<close>, rasterizing the segment from either
  endpoint yields the same set of points.
\<close>

theorem bresenham_line_reversed_same_set:
  "set (bresenham_line x0 y0 x1 y1) = set (bresenham_line x1 y1 x0 y0)"
proof (cases "x0 = x1")
  case True
  then show ?thesis by (simp add: bresenham_line_def min.commute max.commute)
next
  case False
  then show ?thesis by (simp add: bresenham_line_walk_sym [of x0 x1 y0 y1])
qed

text \<open>
  C9. For all integers \<open>x0\<close>, \<open>y0\<close>, \<open>x1\<close>, \<open>y1\<close>, rasterizing the segment from either
  endpoint yields the same list, element for element: both calls are normalised to the
  same walk.
\<close>

theorem bresenham_line_reversed_same_sequence:
  "bresenham_line x0 y0 x1 y1 = bresenham_line x1 y1 x0 y0"
proof (cases "x0 = x1")
  case True
  then show ?thesis by (simp add: bresenham_line_def min.commute max.commute)
next
  case False
  then show ?thesis by (rule bresenham_line_walk_sym)
qed

text \<open>
  C8. For all integers \<open>x0\<close>, \<open>y0\<close>, \<open>x1\<close>, \<open>y1\<close>, the list returned by
  \<^verbatim>\<open>bresenham_line\<close> has exactly \<open>max \<bar>x1 - x0\<bar> \<bar>y1 - y0\<bar> + 1\<close> elements; in particular the
  segment from \<open>(10, 10)\<close> to \<open>(80, 50)\<close> has 71 points.
\<close>

theorem bresenham_line_length:
  "int (length (bresenham_line x0 y0 x1 y1)) = max \<bar>x1 - x0\<bar> \<bar>y1 - y0\<bar> + 1 \<and>
   length (bresenham_line 10 10 80 50) = 71"
proof -
  have general: "int (length (bresenham_line a b c d)) = max \<bar>c - a\<bar> \<bar>d - b\<bar> + 1" for a b c d
  proof (cases "a = c")
    case True
    then show ?thesis by (simp add: bresenham_line_def)
  next
    case False
    then show ?thesis by (auto simp add: bresenham_line_walk canonical_walk_length)
  qed
  have "int (length (bresenham_line 10 10 80 50)) = 71"
    by (simp add: general)
  then have "length (bresenham_line 10 10 80 50) = 71" by linarith
  with general show ?thesis by simp
qed

section \<open>Properties of bresenham\_circle\<close>

subsection \<open>The loop\<close>

text \<open>
  A property of \<^verbatim>\<open>points\<close> that every call of \<^verbatim>\<open>add_circle_points\<close> preserves holds of
  the list the loop returns, whatever the values of \<^verbatim>\<open>x\<close>, \<^verbatim>\<open>y\<close> and \<^verbatim>\<open>d\<close>.
\<close>

lemma circle_while_invariant:
  "P points \<Longrightarrow> (\<And>x y ps. P ps \<Longrightarrow> P (add_circle_points cx cy x y ps)) \<Longrightarrow>
   P (circle_while cx cy x y d points)"
proof (induction cx cy x y d points rule: circle_while.induct)
  case (1 cx cy x y d points)
  note step = "1.prems"(2)
  show ?case
  proof (cases "x \<le> y")
    case False
    then show ?thesis using "1.prems"(1) by (subst circle_while.simps) simp
  next
    case True
    show ?thesis
    proof (cases "d < 0")
      case neg: True
      have "P (circle_while cx cy (x + 1) y (d + 4 * x + 6) (add_circle_points cx cy (x + 1) y points))"
        using True neg step "1.prems"(1) by (intro "1.IH"(1)) 
      then show ?thesis using True neg by (subst circle_while.simps) simp
    next
      case nonneg: False
      have "P (circle_while cx cy (x + 1) (y - 1) (d + 4 * (x - y) + 10)
                 (add_circle_points cx cy (x + 1) (y - 1) points))"
        using True nonneg step "1.prems"(1) by (intro "1.IH"(2))
      then show ?thesis using True nonneg by (subst circle_while.simps) simp
    qed
  qed
qed


lemma add_circle_points_reflect_x:
  "mset (map (\<lambda>(px, py). (2 * cx - px, py)) ps) = mset ps \<Longrightarrow>
   mset (map (\<lambda>(px, py). (2 * cx - px, py)) (add_circle_points cx cy x y ps)) =
   mset (add_circle_points cx cy x y ps)"
  by (simp add: add_circle_points_def add_mset_commute)

lemma add_circle_points_reflect_y:
  "mset (map (\<lambda>(px, py). (px, 2 * cy - py)) ps) = mset ps \<Longrightarrow>
   mset (map (\<lambda>(px, py). (px, 2 * cy - py)) (add_circle_points cx cy x y ps)) =
   mset (add_circle_points cx cy x y ps)"
  by (simp add: add_circle_points_def add_mset_commute)

lemma add_circle_points_length:
  "length (add_circle_points cx cy x y ps) = length ps + 8"
  by (simp add: add_circle_points_def)

text \<open>
  The decision parameter is a function of the current offset:
  \<open>d = 2 (x\<^sup>2 + y\<^sup>2 - r\<^sup>2) + 4 x - 2 y + 3\<close>. Together with \<open>4 (x - y) + 2 \<le> d\<close>, and
  \<open>d \<le> 4 x + 3\<close> while the loop condition holds, it bounds \<open>x\<^sup>2 + y\<^sup>2 - r\<^sup>2\<close> between \<open>- r\<close>
  and \<open>r + 2\<close> for every offset that is expanded, the last one (where \<open>x > y\<close>) included.
\<close>

lemma add_circle_points_within:
  assumes "within_one r (x\<^sup>2 + y\<^sup>2)"
    and "\<forall>p \<in> set ps. within_one r (dist_sq cx cy p)"
  shows "\<forall>p \<in> set (add_circle_points cx cy x y ps). within_one r (dist_sq cx cy p)"
  using assms by (simp add: add_circle_points_def dist_sq_def add.commute)

lemma within_one_bounds:
  assumes "0 \<le> r" and "- r \<le> f" and "f \<le> r + 2" and "q = f + r\<^sup>2"
  shows "within_one r q"
proof -
  have "4 * q < (2 * r + 3)\<^sup>2"
    using assms(1,3) by (simp add: assms(4) power2_eq_square algebra_simps)
  moreover have "2 * r \<le> 3 \<or> (2 * r - 3)\<^sup>2 \<le> 4 * q"
    using assms(1,2) by (simp add: assms(4) power2_eq_square algebra_simps) linarith
  ultimately show ?thesis by (simp add: within_one_def)
qed

lemma circle_while_within:
  assumes "\<forall>p \<in> set points. within_one r (dist_sq cx cy p)"
    and "0 \<le> r" and "0 \<le> x" and "y \<le> r"
    and "d = 2 * (x\<^sup>2 + y\<^sup>2 - r\<^sup>2) + 4 * x - 2 * y + 3"
    and "4 * (x - y) + 2 \<le> d"
    and "x \<le> y \<longrightarrow> d \<le> 4 * x + 3"
  shows "\<forall>p \<in> set (circle_while cx cy x y d points). within_one r (dist_sq cx cy p)"
  using assms
proof (induction cx cy x y d points rule: circle_while.induct)
  case (1 cx cy x y d points)
  show ?case
  proof (cases "x \<le> y")
    case False
    then show ?thesis using "1.prems"(1) by (subst circle_while.simps) simp
  next
    case True
    then have up: "d \<le> 4 * x + 3" using "1.prems"(7) by simp
    note dv = "1.prems"(5)
    show ?thesis
    proof (cases "d < 0")
      case neg: True
      define f where "f = (x + 1)\<^sup>2 + y\<^sup>2 - r\<^sup>2"
      have d': "d + 4 * x + 6 = 2 * ((x + 1)\<^sup>2 + y\<^sup>2 - r\<^sup>2) + 4 * (x + 1) - 2 * y + 3"
        using dv by (simp add: power2_eq_square algebra_simps)
      have f2: "2 * f = d + 2 * y - 1"
        using dv by (simp add: f_def power2_eq_square algebra_simps)
      have "within_one r ((x + 1)\<^sup>2 + y\<^sup>2)"
      proof (rule within_one_bounds [where f = f])
        show "- r \<le> f" using f2 "1.prems"(3,4,6) by presburger
        show "f \<le> r + 2" using f2 neg "1.prems"(4) by linarith
      qed (use "1.prems"(2) in \<open>simp_all add: f_def\<close>)
      then have pts: "\<forall>p \<in> set (add_circle_points cx cy (x + 1) y points).
                       within_one r (dist_sq cx cy p)"
        using "1.prems"(1) by (rule add_circle_points_within)
      have "\<forall>p \<in> set (circle_while cx cy (x + 1) y (d + 4 * x + 6)
               (add_circle_points cx cy (x + 1) y points)). within_one r (dist_sq cx cy p)"
      proof (rule "1.IH"(1) [OF True neg pts \<open>0 \<le> r\<close> _ \<open>y \<le> r\<close> d'])
        show "0 \<le> x + 1" using "1.prems"(3) by simp
        show "4 * (x + 1 - y) + 2 \<le> d + 4 * x + 6" using "1.prems"(3,6) by presburger
        show "x + 1 \<le> y \<longrightarrow> d + 4 * x + 6 \<le> 4 * (x + 1) + 3" using neg by simp
      qed
      then show ?thesis using True neg by (subst circle_while.simps) simp
    next
      case nonneg: False
      define f where "f = (x + 1)\<^sup>2 + (y - 1)\<^sup>2 - r\<^sup>2"
      have d': "d + 4 * (x - y) + 10 =
                  2 * ((x + 1)\<^sup>2 + (y - 1)\<^sup>2 - r\<^sup>2) + 4 * (x + 1) - 2 * (y - 1) + 3"
        using dv by (simp add: power2_eq_square algebra_simps)
      have f2: "2 * f = d - 2 * y + 1"
        using dv by (simp add: f_def power2_eq_square algebra_simps)
      have "within_one r ((x + 1)\<^sup>2 + (y - 1)\<^sup>2)"
      proof (rule within_one_bounds [where f = f])
        show "- r \<le> f" using f2 nonneg "1.prems"(4) by linarith
        show "f \<le> r + 2" using f2 up True "1.prems"(4) by linarith
      qed (use "1.prems"(2) in \<open>simp_all add: f_def\<close>)
      then have pts: "\<forall>p \<in> set (add_circle_points cx cy (x + 1) (y - 1) points).
                       within_one r (dist_sq cx cy p)"
        using "1.prems"(1) by (rule add_circle_points_within)
      have "\<forall>p \<in> set (circle_while cx cy (x + 1) (y - 1) (d + 4 * (x - y) + 10)
               (add_circle_points cx cy (x + 1) (y - 1) points)). within_one r (dist_sq cx cy p)"
      proof (rule "1.IH"(2) [OF True nonneg pts \<open>0 \<le> r\<close> _ _ d'])
        show "0 \<le> x + 1" using "1.prems"(3) by simp
        show "y - 1 \<le> r" using "1.prems"(4) by simp
        show "4 * (x + 1 - (y - 1)) + 2 \<le> d + 4 * (x - y) + 10" using nonneg by presburger
        show "x + 1 \<le> y - 1 \<longrightarrow> d + 4 * (x - y) + 10 \<le> 4 * (x + 1) + 3" using up by presburger
      qed
      then show ?thesis using True nonneg by (subst circle_while.simps) simp
    qed
  qed
qed

lemma bresenham_circle_within_one:
  assumes "0 \<le> r" and "p \<in> set (bresenham_circle cx cy r)"
  shows "within_one r (dist_sq cx cy p)"
proof -
  have "within_one r (0\<^sup>2 + r\<^sup>2)"
    by (rule within_one_bounds [where f = 0]) (use assms(1) in simp_all)
  then have "\<forall>p \<in> set (add_circle_points cx cy 0 r []). within_one r (dist_sq cx cy p)"
    by (rule add_circle_points_within) simp
  then have "\<forall>p \<in> set (circle_while cx cy 0 r (3 - 2 * r) (add_circle_points cx cy 0 r [])).
               within_one r (dist_sq cx cy p)"
    by (rule circle_while_within) (use assms(1) in simp_all)
  then show ?thesis using assms(2) by (simp add: bresenham_circle_def)
qed

subsection \<open>From the integer bound to the rounded distance\<close>

lemma sqrt_four_times: "sqrt (real_of_int (4 * q)) = 2 * sqrt (real_of_int q)"
  by (simp add: real_sqrt_mult)

lemma sqrt_int_square: "0 \<le> a \<Longrightarrow> sqrt (real_of_int (a\<^sup>2)) = real_of_int a"
  by simp

lemma within_one_round:
  assumes "0 \<le> r" and "0 \<le> q" and "within_one r q"
  shows "\<bar>round (sqrt (real_of_int q)) - r\<bar> \<le> 1"
proof -
  let ?s = "sqrt (real_of_int q)"
  have s0: "0 \<le> ?s" using assms(2) by simp
  have "4 * q < (2 * r + 3)\<^sup>2" using assms(3) by (simp add: within_one_def)
  then have "real_of_int (4 * q) < real_of_int ((2 * r + 3)\<^sup>2)"
    by (simp only: of_int_less_iff)
  then have "sqrt (real_of_int (4 * q)) < sqrt (real_of_int ((2 * r + 3)\<^sup>2))"
    by (simp only: real_sqrt_less_iff)
  then have "2 * ?s < real_of_int (2 * r + 3)"
    using assms(1) by (simp only: sqrt_four_times) (simp add: sqrt_int_square)
  then have up: "?s + 1 / 2 < real_of_int (r + 2)" by simp
  have lo: "real_of_int (r - 1) \<le> ?s + 1 / 2"
  proof (cases "2 * r \<le> 3")
    case True
    then have "r \<le> 1" by simp
    then have "real_of_int (r - 1) \<le> 0" by simp
    then show ?thesis using s0 by linarith
  next
    case False
    then have "(2 * r - 3)\<^sup>2 \<le> 4 * q" using assms(3) by (simp add: within_one_def)
    then have "real_of_int ((2 * r - 3)\<^sup>2) \<le> real_of_int (4 * q)"
      by (simp only: of_int_le_iff)
    then have "sqrt (real_of_int ((2 * r - 3)\<^sup>2)) \<le> sqrt (real_of_int (4 * q))"
      by (simp only: real_sqrt_le_iff)
    moreover have "sqrt (real_of_int ((2 * r - 3)\<^sup>2)) = real_of_int (2 * r - 3)"
      using False by (intro sqrt_int_square) simp
    ultimately have "real_of_int (2 * r - 3) \<le> 2 * ?s"
      by (simp only: sqrt_four_times)
    then show ?thesis by simp
  qed
  have "round ?s < r + 2" using up by (simp only: round_def floor_less_iff)
  moreover have "r - 1 \<le> round ?s" using lo by (simp only: round_def le_floor_iff)
  ultimately show ?thesis by simp
qed

subsection \<open>Results\<close>

text \<open>
  C1. \<^verbatim>\<open>bresenham_circle\<close> has no check of the radius. For every integer centre
  \<open>(cx, cy)\<close> and every radius \<open>r < 0\<close> the call returns normally: the initial expansion of
  the offset \<open>(0, r)\<close> is made, the loop condition \<open>0 \<le> r\<close> is false at once, and the result
  is the list of exactly these eight points. At centre \<open>(0, 0)\<close> and radius \<open>- 1\<close> the
  result is a non-empty list, so the call is not rejected and does produce output.
\<close>

theorem bresenham_circle_negative_radius_counterexample:
  "bresenham_circle 0 0 (- 1) \<noteq> [] \<and>
   bresenham_circle 0 0 (- 1) =
     [(0, - 1), (0, - 1), (0, 1), (0, 1), (- 1, 0), (1, 0), (- 1, 0), (1, 0)]"
  by (simp add: bresenham_circle_def circle_while.simps add_circle_points_def)

theorem bresenham_circle_negative_radius:
  "r < 0 \<Longrightarrow>
   bresenham_circle cx cy r =
     [(cx, cy + r), (cx, cy + r), (cx, cy - r), (cx, cy - r),
      (cx + r, cy), (cx - r, cy), (cx + r, cy), (cx - r, cy)]"
  by (simp add: bresenham_circle_def circle_while.simps [of _ _ 0] add_circle_points_def)

theorem bresenham_circle_negative_radius_witness:
  "(- 3 :: int) < 0 \<and>
   bresenham_circle 5 7 (- 3) =
     [(5, 4), (5, 4), (5, 10), (5, 10), (2, 7), (8, 7), (2, 7), (8, 7)]"
proof -
  have h: "(- 3 :: int) < 0" by simp
  show ?thesis using h bresenham_circle_negative_radius [OF h, of 5 7] by simp
qed

text \<open>
  C2. For every integer centre \<open>(cx, cy)\<close>, \<^verbatim>\<open>bresenham_circle\<close> with radius 0 returns
  sixteen points. The first eight are the centre, from the initial expansion of the offset
  \<open>(0, 0)\<close>, and the centre occurs exactly eight times. The loop condition \<open>0 \<le> 0\<close> then holds
  once, and the iteration expands the offset \<open>(1, - 1)\<close>: the last eight points are the four
  diagonal neighbours of the centre, each twice. At centre \<open>(0, 0)\<close> the point \<open>(1, - 1)\<close> is
  in the result, so not every element is the centre.
\<close>

theorem bresenham_circle_zero_radius_counterexample:
  "(1, - 1) \<in> set (bresenham_circle 0 0 0) \<and> (1, - 1) \<noteq> (0 :: int, 0 :: int) \<and>
   length (bresenham_circle 0 0 0) = 16"
  by (simp add: bresenham_circle_def circle_while.simps add_circle_points_def)

theorem bresenham_circle_zero_radius:
  "bresenham_circle cx cy 0 =
     [(cx, cy), (cx, cy), (cx, cy), (cx, cy), (cx, cy), (cx, cy), (cx, cy), (cx, cy),
      (cx + 1, cy - 1), (cx - 1, cy - 1), (cx + 1, cy + 1), (cx - 1, cy + 1),
      (cx - 1, cy + 1), (cx + 1, cy + 1), (cx - 1, cy - 1), (cx + 1, cy - 1)] \<and>
   count_list (bresenham_circle cx cy 0) (cx, cy) = 8"
  by (simp add: bresenham_circle_def circle_while.simps [of _ _ 0] circle_while.simps [of _ _ 1]
        add_circle_points_def)

text \<open>
  C10. For every integer centre \<open>(cx, cy)\<close> and every integer radius \<open>r\<close>, the multiset of
  points returned by \<^verbatim>\<open>bresenham_circle\<close> is unchanged by the reflection
  \<open>(px, py) \<mapsto> (2 cx - px, py)\<close> across the vertical line through the centre and by the
  reflection \<open>(px, py) \<mapsto> (px, 2 cy - py)\<close> across the horizontal one, and the number of
  points is a positive multiple of 8.
\<close>

theorem bresenham_circle_symmetric:
  "mset (map (\<lambda>(px, py). (2 * cx - px, py)) (bresenham_circle cx cy r)) =
     mset (bresenham_circle cx cy r) \<and>
   mset (map (\<lambda>(px, py). (px, 2 * cy - py)) (bresenham_circle cx cy r)) =
     mset (bresenham_circle cx cy r) \<and>
   0 < length (bresenham_circle cx cy r) \<and> 8 dvd length (bresenham_circle cx cy r)"
proof -
  let ?init = "add_circle_points cx cy 0 r []"
  let ?res = "circle_while cx cy 0 r (3 - 2 * r) ?init"
  have "mset (map (\<lambda>(px, py). (2 * cx - px, py)) ?res) = mset ?res"
  proof (rule circle_while_invariant
          [where P = "\<lambda>ps. mset (map (\<lambda>(px, py). (2 * cx - px, py)) ps) = mset ps"])
    show "mset (map (\<lambda>(px, py). (2 * cx - px, py)) ?init) = mset ?init"
      by (rule add_circle_points_reflect_x) simp
  qed (rule add_circle_points_reflect_x)
  moreover
  have "mset (map (\<lambda>(px, py). (px, 2 * cy - py)) ?res) = mset ?res"
  proof (rule circle_while_invariant
          [where P = "\<lambda>ps. mset (map (\<lambda>(px, py). (px, 2 * cy - py)) ps) = mset ps"])
    show "mset (map (\<lambda>(px, py). (px, 2 * cy - py)) ?init) = mset ?init"
      by (rule add_circle_points_reflect_y) simp
  qed (rule add_circle_points_reflect_y)
  moreover
  have "0 < length ?res \<and> 8 dvd length ?res"
  proof (rule circle_while_invariant [where P = "\<lambda>ps. 0 < length ps \<and> 8 dvd length ps"])
    show "0 < length ?init \<and> 8 dvd length ?init"
      by (simp add: add_circle_points_length)
  qed (simp add: add_circle_points_length)
  ultimately show ?thesis by (simp only: bresenham_circle_def) 
qed


text \<open>
  C4. For every integer centre \<open>(cx, cy)\<close> and every radius \<open>r \<ge> 0\<close>, every point
  \<open>(px, py)\<close> returned by \<^verbatim>\<open>bresenham_circle\<close> has a Euclidean distance to the centre that
  rounds to an integer within 1 of \<open>r\<close>. The property is stated twice: over the integers, by
  the squared bounds of \<open>within_one\<close>, and over the reals with \<open>round\<close> and \<open>sqrt\<close>.
\<close>

theorem bresenham_circle_radius_error:
  assumes "0 \<le> r" and "(px, py) \<in> set (bresenham_circle cx cy r)"
  shows "within_one r ((px - cx)\<^sup>2 + (py - cy)\<^sup>2) \<and>
         \<bar>round (sqrt (real_of_int ((px - cx)\<^sup>2 + (py - cy)\<^sup>2))) - r\<bar> \<le> 1"
proof -
  have "within_one r (dist_sq cx cy (px, py))"
    using assms by (rule bresenham_circle_within_one)
  then have w: "within_one r ((px - cx)\<^sup>2 + (py - cy)\<^sup>2)"
    by (simp add: dist_sq_def)
  have "0 \<le> (px - cx)\<^sup>2 + (py - cy)\<^sup>2" by simp
  with assms(1) have "\<bar>round (sqrt (real_of_int ((px - cx)\<^sup>2 + (py - cy)\<^sup>2))) - r\<bar> \<le> 1"
    using w by (rule within_one_round)
  with w show ?thesis by (rule conjI)
qed

theorem bresenham_circle_radius_error_witness:
  "(0 :: int) \<le> 2 \<and> (41, 32) \<in> set (bresenham_circle 40 30 2) \<and>
   within_one 2 ((41 - 40)\<^sup>2 + (32 - 30)\<^sup>2) \<and>
   \<bar>round (sqrt (real_of_int ((41 - 40)\<^sup>2 + (32 - 30)\<^sup>2))) - 2\<bar> \<le> 1"
proof -
  have h1: "(0 :: int) \<le> 2" by simp
  have h2: "(41, 32) \<in> set (bresenham_circle 40 30 2)"
    by (simp add: bresenham_circle_def circle_while.simps add_circle_points_def)
  show ?thesis using h1 h2 bresenham_circle_radius_error [OF h1 h2] by blast
qed

end
